theory Spec2Isabelle
  imports Main "HOL-Library.Sublist"
begin

section \<open>JavaScript values\<close>

text \<open>
  Configuration objects and model definitions are plain JavaScript objects. An object is
  an association list of own properties; reading a missing property gives \<open>undefined\<close>.
\<close>

datatype js =
    JUndefined
  | JBool bool
  | JString string
  | JObject "(string \<times> js) list"
  | JArray "js list"

type_synonym js_object = "(string \<times> js) list"

fun js_lookup :: "js_object \<Rightarrow> string \<Rightarrow> js" where
  "js_lookup [] k = JUndefined"
| "js_lookup ((k', v) # kvs) k = (if k' = k then v else js_lookup kvs k)"

fun js_get :: "js \<Rightarrow> string \<Rightarrow> js" where
  "js_get (JObject kvs) k = js_lookup kvs k"
| "js_get v k = JUndefined"

fun js_set :: "js_object \<Rightarrow> string \<Rightarrow> js \<Rightarrow> js_object" where
  "js_set [] k v = [(k, v)]"
| "js_set ((k', v') # kvs) k v =
     (if k' = k then (k, v) # kvs else (k', v') # js_set kvs k v)"

text \<open>
  The spread \<open>{...target, ...src}\<close>: every own property of \<open>src\<close> is assigned onto the
  target, in order, replacing a property of the same name as a whole (the copy is shallow).
\<close>

definition js_spread :: "js_object \<Rightarrow> js_object \<Rightarrow> js_object" where
  "js_spread target src = foldl (\<lambda>obj (k, v). js_set obj k v) target src"

datatype js_error = JsError (err_class: string) (err_message: string)

section \<open>The UID service: \<open>findUniqueUID\<close>\<close>

text \<open>
  Source: \<^verbatim>\<open>src/unnamed/part_000\<close>, the method \<open>findUniqueUID\<close> (lines 27 to 48).
\<close>

text \<open>
  The template literal \<open>`${value}-${i}`\<close> renders the counter \<open>i\<close> in decimal. The counter
  starts at 1 and is incremented once per colliding candidate: it never exceeds the
  length of the list of collisions plus one, so it stays in the range in which a
  JavaScript number is an exact integer printed without exponent, and \<open>nat\<close> models it.
\<close>

definition digit_char :: "nat \<Rightarrow> char" where
  "digit_char d = char_of (48 + d)"

fun number_to_string :: "nat \<Rightarrow> string" where
  "number_to_string n =
     (if n < 10 then [digit_char n]
      else number_to_string (n div 10) @ [digit_char (n mod 10)])"

declare number_to_string.simps [simp del]

definition template :: "string \<Rightarrow> nat \<Rightarrow> string" where
  "template v i = v @ ''-'' @ number_to_string i"

text \<open>
  The \<open>while\<close> loop of \<open>findUniqueUID\<close>. It is not structurally recursive; it ends because
  the candidates \<open>value-i\<close> are pairwise different and the list of collisions is finite
  (see the termination proof in the section on \<open>findUniqueUID\<close> below).
\<close>

function findUniqueUID_loop :: "string \<Rightarrow> string list \<Rightarrow> nat \<Rightarrow> string" where
  "findUniqueUID_loop v possibleColisions i =
     (if template v i \<in> set possibleColisions
      then findUniqueUID_loop v possibleColisions (i + 1)
      else template v i)"
  by pat_completeness auto

text \<open>
  \<open>findUniqueUID\<close> itself. The repository query
  \<open>query.findMany({ where: { [field]: { $contains: value } } })\<close>, mapped to the field's
  values, is the parameter \<open>findMany\<close>: the function only sees the list it returns.
\<close>

definition findUniqueUID :: "(string \<Rightarrow> string list) \<Rightarrow> string \<Rightarrow> string" where
  "findUniqueUID findMany v =
     (let possibleColisions = findMany v in
      if length possibleColisions = 0 then v
      else findUniqueUID_loop v possibleColisions 1)"

text \<open>
  Modelled from the spec: the repository's \<open>findMany\<close> with a contains-filter is not part
  of the sources at hand. The specification says that a "contains" filter performs a
  substring match and has no side effects; \<open>rows\<close> are the stored values of the field.
\<close>

definition contains_filter :: "string list \<Rightarrow> string \<Rightarrow> string list" where
  "contains_filter rows v = filter (\<lambda>r. sublist v r) rows"

text \<open>
  Modelled from the spec: a create call under the uniqueness-finder pattern. The caller
  asks \<open>findUniqueUID\<close> for a free value and stores a row with it.
\<close>

definition create_with_uid :: "string list \<Rightarrow> string \<Rightarrow> string list" where
  "create_with_uid rows v = rows @ [findUniqueUID (contains_filter rows) v]"

section \<open>The Database facade\<close>

text \<open>
  Source: \<^verbatim>\<open>src/unnamed/part_001\<close>, the class \<open>Database\<close>: its constructor (lines 17 to 41)
  and the methods \<open>query\<close> (43 to 49), \<open>transaction\<close> (51 to 88) and \<open>destroy\<close> (105 to 108).
\<close>

type_synonym uid = string
type_synonym handle = nat

text \<open>
  A hook (\<open>onSuccess\<close>, \<open>onError\<close>) is a caller-supplied function without arguments. What
  the facade can observe of it is that it was called and whether it threw.
\<close>

datatype hook = Hook (hook_id: nat) (hook_outcome: "js_error option")

record hooks =
  onError :: "hook option"
  onSuccess :: "hook option"

text \<open>
  Calls to collaborators are recorded in a log, in the order in which they happen.
\<close>

datatype event =
    CreateMetadata
  | GetDialect
  | DialectConfigure
  | CreateConnection
  | DialectInitialize
  | CreateSchemaProvider
  | CreateMigrationsProvider
  | CreateLifecyclesProvider
  | CreateEntityManager
  | TrxBegin handle
  | TrxCommit handle
  | TrxRollback handle
  | HookCalled hook
  | LifecyclesClear
  | ConnectionDestroy

text \<open>
  The driver behind a transaction handle. \<open>trx.commit()\<close> and \<open>trx.rollback()\<close> are awaited
  inside the \<open>try\<close> block and its handler, so whether they reject decides the path taken;
  the outcome may depend on everything that happened before. Collaborator calls outside
  any handler (opening a handle, the steps of the constructor and of \<open>destroy\<close>) are total
  effects: a failure there would end the method before it does anything else.
\<close>

record driver =
  commit_result :: "handle \<Rightarrow> event list \<Rightarrow> js_error option"
  rollback_result :: "handle \<Rightarrow> event list \<Rightarrow> js_error option"

text \<open>
  The state: the fields of the \<open>Database\<close> instance, the store of the transaction context
  (\<open>ambient\<close>) and the log.
\<close>

record world =
  metadata :: "(uid \<times> js) list"
  config :: js_object
  dialect :: js
  pool_open :: bool
  subscribers :: "nat list"
  next_handle :: nat
  ambient :: "handle option"
  trace :: "event list"

subsection \<open>Construction\<close>

text \<open>
  Modelled from the spec: \<open>createMetadata\<close> is not part of the sources at hand. The registry
  is built once from the supplied entity definitions and offers \<open>has(uid)\<close>; every
  definition is registered under its \<open>uid\<close>.
\<close>

definition model_entry :: "js \<Rightarrow> (uid \<times> js) list" where
  "model_entry m = (case js_get m ''uid'' of JString u \<Rightarrow> [(u, m)] | _ \<Rightarrow> [])"

definition createMetadata :: "js \<Rightarrow> (uid \<times> js) list" where
  "createMetadata models = (case models of JArray ms \<Rightarrow> concat (map model_entry ms) | _ \<Rightarrow> [])"

definition metadata_has :: "(uid \<times> js) list \<Rightarrow> uid \<Rightarrow> bool" where
  "metadata_has md u = (u \<in> set (map fst md))"

text \<open>
  Modelled from the spec: \<open>getDialect\<close> is not part of the sources at hand. The dialect is
  selected from the configuration (the connection's \<open>client\<close>).
\<close>

definition getDialect :: "js_object \<Rightarrow> js" where
  "getDialect cfg = js_get (js_lookup cfg ''connection'') ''client''"

definition default_config :: js_object where
  "default_config =
     [(''connection'', JObject []),
      (''settings'', JObject [(''forceMigration'', JBool True)])]"

text \<open>
  The constructor, statement by statement. It starts from a fresh process: no ambient
  transaction, no handle opened yet, an empty log.
\<close>

definition log_event :: "event \<Rightarrow> world \<Rightarrow> world" where
  "log_event e w = w\<lparr>trace := trace w @ [e]\<rparr>"

definition Database_constructor :: "js_object \<Rightarrow> world" where
  "Database_constructor cfg =
     (let w0 = \<lparr>metadata = [], config = [], dialect = JUndefined, pool_open = False,
                subscribers = [], next_handle = 0, ambient = None, trace = []\<rparr>;
          w1 = log_event CreateMetadata (w0\<lparr>metadata := createMetadata (js_lookup cfg ''models'')\<rparr>);
          w2 = w1\<lparr>config := js_spread default_config cfg\<rparr>;
          w3 = log_event GetDialect (w2\<lparr>dialect := getDialect (config w2)\<rparr>);
          w4 = log_event DialectConfigure w3;
          w5 = log_event CreateConnection (w4\<lparr>pool_open := True\<rparr>);
          w6 = log_event DialectInitialize w5;
          w7 = log_event CreateSchemaProvider w6;
          w8 = log_event CreateMigrationsProvider w7;
          w9 = log_event CreateLifecyclesProvider (w8\<lparr>subscribers := []\<rparr>);
          w10 = log_event CreateEntityManager w9
      in w10)"

subsection \<open>\<open>query\<close>\<close>

text \<open>
  Modelled from the spec: the entity manager is not part of the sources at hand. Its
  \<open>getRepository(uid)\<close> yields the repository of that entity.
\<close>

datatype repository = Repository uid

definition getRepository :: "uid \<Rightarrow> repository" where
  "getRepository u = Repository u"

definition query :: "world \<Rightarrow> uid \<Rightarrow> js_error + repository" where
  "query w u =
     (if \<not> metadata_has (metadata w) u
      then Inl (JsError ''Error'' (''Model '' @ u @ '' not found''))
      else Inr (getRepository u))"

subsection \<open>\<open>transaction\<close>\<close>

text \<open>
  What a callback passed to \<open>transaction\<close> does, as far as transactions are concerned: it
  returns a value, throws, or first awaits a further call of \<open>transaction\<close> on the same
  facade: with a callback of its own (letting a failure of that call escape, or catching
  it and going on in the handler), or without one, using the manual handle it gets.
\<close>

datatype manual_op = MCommit | MRollback

datatype 'a callback =
    Return 'a
  | Throw js_error
  | Nested "'a callback" hooks "'a callback"
  | NestedCatch "'a callback" hooks "'a callback" "'a callback"
  | Manual "manual_op list" "'a callback"

record manual_handle =
  mh_trx :: handle
  mh_notNested :: bool

datatype 'a tx_result = ManualHandle manual_handle | Value 'a

text \<open>
  Modelled from the spec: the transaction context module is not part of the sources at
  hand. \<open>get()\<close> returns the ambient handle or none; \<open>run(handle, fn)\<close> makes \<open>handle\<close> the
  ambient one for the extent of \<open>fn\<close> and restores the previous value on every exit.
\<close>

definition ctx_get :: "world \<Rightarrow> handle option" where
  "ctx_get w = ambient w"

definition ctx_run :: "handle \<Rightarrow> (world \<Rightarrow> 'r \<times> world) \<Rightarrow> world \<Rightarrow> 'r \<times> world" where
  "ctx_run trx fn w =
     (case fn (w\<lparr>ambient := Some trx\<rparr>) of (r, w') \<Rightarrow> (r, w'\<lparr>ambient := ambient w\<rparr>))"

text \<open>
  \<open>this.connection.transaction()\<close> opens a new handle; \<open>trx.commit()\<close>, \<open>trx.rollback()\<close>
  and a hook call are recorded whether or not they fail.
\<close>

definition connection_transaction :: "world \<Rightarrow> handle \<times> world" where
  "connection_transaction w =
     (next_handle w,
      w\<lparr>next_handle := Suc (next_handle w), trace := trace w @ [TrxBegin (next_handle w)]\<rparr>)"

text \<open>
  \<open>notNestedTransaction ? await this.connection.transaction() : transactionCtx.get()\<close>
\<close>

definition open_or_join :: "world \<Rightarrow> handle \<times> world" where
  "open_or_join w = (case ctx_get w of None \<Rightarrow> connection_transaction w | Some t \<Rightarrow> (t, w))"

definition trx_commit :: "driver \<Rightarrow> handle \<Rightarrow> world \<Rightarrow> js_error option \<times> world" where
  "trx_commit d trx w = (commit_result d trx (trace w), w\<lparr>trace := trace w @ [TrxCommit trx]\<rparr>)"

definition trx_rollback :: "driver \<Rightarrow> handle \<Rightarrow> world \<Rightarrow> js_error option \<times> world" where
  "trx_rollback d trx w = (rollback_result d trx (trace w), w\<lparr>trace := trace w @ [TrxRollback trx]\<rparr>)"

definition call_hook :: "hook option \<Rightarrow> world \<Rightarrow> js_error option \<times> world" where
  "call_hook ho w =
     (case ho of None \<Rightarrow> (None, w)
      | Some h \<Rightarrow> (hook_outcome h, w\<lparr>trace := trace w @ [HookCalled h]\<rparr>))"

text \<open>The object returned when no callback is given, and its three methods.\<close>

definition mh_commit :: "driver \<Rightarrow> manual_handle \<Rightarrow> world \<Rightarrow> js_error option \<times> world" where
  "mh_commit d mh w = (if mh_notNested mh then trx_commit d (mh_trx mh) w else (None, w))"

definition mh_rollback :: "driver \<Rightarrow> manual_handle \<Rightarrow> world \<Rightarrow> js_error option \<times> world" where
  "mh_rollback d mh w = (if mh_notNested mh then trx_rollback d (mh_trx mh) w else (None, w))"

definition mh_get :: "manual_handle \<Rightarrow> handle" where
  "mh_get mh = mh_trx mh"

fun run_manual :: "driver \<Rightarrow> manual_handle \<Rightarrow> manual_op list \<Rightarrow> world \<Rightarrow> js_error option \<times> world" where
  "run_manual d mh [] w = (None, w)"
| "run_manual d mh (MCommit # ops) w =
     (case mh_commit d mh w of (Some e, w1) \<Rightarrow> (Some e, w1) | (None, w1) \<Rightarrow> run_manual d mh ops w1)"
| "run_manual d mh (MRollback # ops) w =
     (case mh_rollback d mh w of (Some e, w1) \<Rightarrow> (Some e, w1) | (None, w1) \<Rightarrow> run_manual d mh ops w1)"

text \<open>
  The handler of the \<open>try\<close> statement, which ends by throwing, and the statements of the
  \<open>try\<close> block that follow the callback. A failure of the commit or of \<open>onSuccess\<close>
  enters the handler like a failure of the callback does. The handler yields the error
  that leaves the method: its own parameter, unless the rollback or \<open>onError\<close> fails first.
\<close>

definition catch_block ::
  "driver \<Rightarrow> bool \<Rightarrow> handle \<Rightarrow> hooks \<Rightarrow> js_error \<Rightarrow> world \<Rightarrow> js_error \<times> world" where
  "catch_block d notNestedTransaction trx hk error w =
     (case (if notNestedTransaction then trx_rollback d trx w else (None, w)) of
        (Some e1, w1) \<Rightarrow> (e1, w1)
      | (None, w1) \<Rightarrow>
          (case call_hook (onError hk) w1 of
             (Some e2, w2) \<Rightarrow> (e2, w2)
           | (None, w2) \<Rightarrow> (error, w2)))"

definition throw :: "js_error \<times> world \<Rightarrow> (js_error + 'a) \<times> world" where
  "throw ew = (Inl (fst ew), snd ew)"

definition try_rest ::
  "driver \<Rightarrow> bool \<Rightarrow> handle \<Rightarrow> hooks \<Rightarrow> 'a \<Rightarrow> world \<Rightarrow> (js_error + 'a) \<times> world" where
  "try_rest d notNestedTransaction trx hk res w =
     (case (if notNestedTransaction then trx_commit d trx w else (None, w)) of
        (Some e1, w1) \<Rightarrow> throw (catch_block d notNestedTransaction trx hk e1 w1)
      | (None, w1) \<Rightarrow>
          (case call_hook (onSuccess hk) w1 of
             (Some e2, w2) \<Rightarrow> throw (catch_block d notNestedTransaction trx hk e2 w2)
           | (None, w2) \<Rightarrow> (Inr res, w2)))"

text \<open>
  The method, together with the execution of a callback: \<open>transaction d cb hooks w\<close> is
  \<open>db.transaction(cb, hooks)\<close> in the state \<open>w\<close>, with \<open>None\<close> for a missing callback. In
  \<open>run_callback\<close>, calling a method of something that is not a manual handle is a
  \<open>TypeError\<close>.
\<close>

definition no_hooks :: hooks where
  "no_hooks = \<lparr>onError = None, onSuccess = None\<rparr>"

definition type_error :: js_error where
  "type_error = JsError ''TypeError'' ''not a function''"

fun transaction ::
    "driver \<Rightarrow> 'a callback option \<Rightarrow> hooks \<Rightarrow> world \<Rightarrow> (js_error + 'a tx_result) \<times> world"
  and run_callback ::
    "driver \<Rightarrow> 'a callback \<Rightarrow> handle \<Rightarrow> world \<Rightarrow> (js_error + 'a) \<times> world"
where
  "transaction d cbo hk w =
     (let notNestedTransaction = (ctx_get w = None) in
      case open_or_join w of
        (trx, w1) \<Rightarrow>
          (case cbo of
             None \<Rightarrow>
               (Inr (ManualHandle \<lparr>mh_trx = trx, mh_notNested = notNestedTransaction\<rparr>), w1)
           | Some cb \<Rightarrow>
               ctx_run trx
                 (\<lambda>w2. case run_callback d cb trx w2 of
                     (Inr res, w3) \<Rightarrow>
                       (case try_rest d notNestedTransaction trx hk res w3 of
                          (r, w4) \<Rightarrow> (map_sum id Value r, w4))
                   | (Inl error, w3) \<Rightarrow>
                       throw (catch_block d notNestedTransaction trx hk error w3))
                 w1))"
| "run_callback d (Return v) trx w = (Inr v, w)"
| "run_callback d (Throw e) trx w = (Inl e, w)"
| "run_callback d (Nested cb hk k) trx w =
     (case transaction d (Some cb) hk w of
        (Inl e, w1) \<Rightarrow> (Inl e, w1)
      | (Inr r, w1) \<Rightarrow> run_callback d k trx w1)"
| "run_callback d (NestedCatch cb hk k kerr) trx w =
     (case transaction d (Some cb) hk w of
        (Inl e, w1) \<Rightarrow> run_callback d kerr trx w1
      | (Inr r, w1) \<Rightarrow> run_callback d k trx w1)"
| "run_callback d (Manual ops k) trx w =
     (case transaction d None no_hooks w of
        (Inl e, w1) \<Rightarrow> (Inl e, w1)
      | (Inr (Value v), w1) \<Rightarrow> (Inl type_error, w1)
      | (Inr (ManualHandle mh), w1) \<Rightarrow>
          (case run_manual d mh ops w1 of
             (Some e, w2) \<Rightarrow> (Inl e, w2)
           | (None, w2) \<Rightarrow> run_callback d k trx w2))"

subsection \<open>\<open>destroy\<close>\<close>

text \<open>
  Modelled from the spec: the lifecycles provider and the connection are not part of the
  sources at hand. \<open>lifecycles.clear()\<close> deregisters all subscribers;
  \<open>connection.destroy()\<close> releases the connection pool.
\<close>

definition lifecycles_clear :: "world \<Rightarrow> world" where
  "lifecycles_clear w = log_event LifecyclesClear (w\<lparr>subscribers := []\<rparr>)"

definition connection_destroy :: "world \<Rightarrow> world" where
  "connection_destroy w = log_event ConnectionDestroy (w\<lparr>pool_open := False\<rparr>)"

definition destroy :: "world \<Rightarrow> unit \<times> world" where
  "destroy w = (let w1 = lifecycles_clear w; w2 = connection_destroy w1 in ((), w2))"

section \<open>Notions used in the statements\<close>

text \<open>
  The events a call appended to the log, and among them the attempts to finalize a handle.
\<close>

definition new_events :: "world \<Rightarrow> world \<Rightarrow> event list" where
  "new_events w w' = drop (length (trace w)) (trace w')"

fun is_hook_call :: "event \<Rightarrow> bool" where
  "is_hook_call (HookCalled h) = True"
| "is_hook_call e = False"

fun is_finalization :: "event \<Rightarrow> bool" where
  "is_finalization (TrxCommit h) = True"
| "is_finalization (TrxRollback h) = True"
| "is_finalization e = False"

definition finalizations :: "event list \<Rightarrow> event list" where
  "finalizations evs = filter is_finalization evs"

definition hook_events :: "hook option \<Rightarrow> event list" where
  "hook_events ho = (case ho of None \<Rightarrow> [] | Some h \<Rightarrow> [HookCalled h])"

text \<open>
  \<open>joined w w'\<close>: from \<open>w\<close> to \<open>w'\<close> nothing happened but calls of hooks.
  \<open>same_instance w w'\<close>: the fields of the instance and the ambient handle are the same,
  and the log has only grown.
\<close>

definition joined :: "world \<Rightarrow> world \<Rightarrow> bool" where
  "joined w w' = (\<exists>evs. w' = w\<lparr>trace := trace w @ evs\<rparr> \<and> list_all is_hook_call evs)"

definition same_instance :: "world \<Rightarrow> world \<Rightarrow> bool" where
  "same_instance w w' =
     (metadata w' = metadata w \<and> config w' = config w \<and> dialect w' = dialect w \<and>
      pool_open w' = pool_open w \<and> subscribers w' = subscribers w \<and> ambient w' = ambient w \<and>
      prefix (trace w) (trace w'))"

text \<open>
  \<open>occurs_before a b evs\<close>: \<open>b\<close> occurs in the log, and \<open>a\<close> occurs before the first \<open>b\<close>.
\<close>

definition occurs_before :: "event \<Rightarrow> event \<Rightarrow> event list \<Rightarrow> bool" where
  "occurs_before a b evs = (a \<in> set (takeWhile (\<lambda>e. e \<noteq> b) evs) \<and> b \<in> set evs)"

text \<open>A driver whose commits and rollbacks always succeed.\<close>

definition reliable_driver :: driver where
  "reliable_driver = \<lparr>commit_result = (\<lambda>trx evs. None), rollback_result = (\<lambda>trx evs. None)\<rparr>"

text \<open>Reading a decimal numeral back, to show that \<open>number_to_string\<close> is injective.\<close>

definition digit_value :: "char \<Rightarrow> nat" where
  "digit_value c = of_char c - 48"

definition string_to_number :: "string \<Rightarrow> nat" where
  "string_to_number s = foldl (\<lambda>a c. 10 * a + digit_value c) 0 s"

declare transaction.simps [simp del]

section \<open>Properties of \<open>findUniqueUID\<close>\<close>

subsection \<open>The loop terminates\<close>

lemma digit_value_digit_char: "d < 10 \<Longrightarrow> digit_value (digit_char d) = d"
  by (simp add: digit_value_def digit_char_def)

lemma string_to_number_snoc:
  "string_to_number (s @ [c]) = 10 * string_to_number s + digit_value c"
  by (simp add: string_to_number_def)

lemma string_to_number_inverse: "string_to_number (number_to_string n) = n"
proof (induction n rule: number_to_string.induct)
  case (1 n)
  show ?case
  proof (cases "n < 10")
    case True
    then show ?thesis
      by (simp add: number_to_string.simps [of n] string_to_number_def digit_value_digit_char)
  next
    case False
    with 1 have "string_to_number (number_to_string (n div 10)) = n div 10" by simp
    with False show ?thesis
      by (simp add: number_to_string.simps [of n] string_to_number_snoc digit_value_digit_char)
  qed
qed

lemma number_to_string_inj: "number_to_string a = number_to_string b \<Longrightarrow> a = b"
  by (metis string_to_number_inverse)

lemma template_inj: "template v a = template v b \<Longrightarrow> a = b"
  by (simp add: template_def number_to_string_inj)

lemma finite_taken: "finite {j. i \<le> j \<and> template v j \<in> set coll}"
proof -
  have "inj (template v)" by (rule injI) (rule template_inj)
  then have "finite (template v -` set coll)" by (simp add: finite_vimageI)
  moreover have "{j. i \<le> j \<and> template v j \<in> set coll} \<subseteq> template v -` set coll" by auto
  ultimately show ?thesis by (rule rev_finite_subset)
qed

termination findUniqueUID_loop
proof (relation "measure (\<lambda>(v, coll, i). card {j. i \<le> j \<and> template v j \<in> set coll})")
  show "wf (measure (\<lambda>(v, coll, i). card {j. i \<le> j \<and> template v j \<in> set coll}))" by simp
next
  fix v coll i
  assume taken: "template v i \<in> set coll"
  have "{j. i + 1 \<le> j \<and> template v j \<in> set coll} \<subset> {j. i \<le> j \<and> template v j \<in> set coll}"
  proof
    show "{j. i + 1 \<le> j \<and> template v j \<in> set coll} \<subseteq> {j. i \<le> j \<and> template v j \<in> set coll}"
      by auto
    have "i \<in> {j. i \<le> j \<and> template v j \<in> set coll}" using taken by simp
    moreover have "i \<notin> {j. i + 1 \<le> j \<and> template v j \<in> set coll}" by simp
    ultimately show "{j. i + 1 \<le> j \<and> template v j \<in> set coll} \<noteq> {j. i \<le> j \<and> template v j \<in> set coll}"
      by blast
  qed
  then have "card {j. i + 1 \<le> j \<and> template v j \<in> set coll} < card {j. i \<le> j \<and> template v j \<in> set coll}"
    by (rule psubset_card_mono [OF finite_taken])
  then show "((v, coll, i + 1), (v, coll, i)) \<in> measure (\<lambda>(v, coll, i). card {j. i \<le> j \<and> template v j \<in> set coll})"
    by simp
qed

declare findUniqueUID_loop.simps [simp del]

subsection \<open>The result\<close>

lemma loop_least:
  "\<exists>k\<ge>i. findUniqueUID_loop v coll i = template v k \<and> template v k \<notin> set coll \<and>
      (\<forall>j. i \<le> j \<and> j < k \<longrightarrow> template v j \<in> set coll)"
proof (induction v coll i rule: findUniqueUID_loop.induct)
  case (1 v coll i)
  show ?case
  proof (cases "template v i \<in> set coll")
    case True
    from 1 [OF True] obtain k where k: "i + 1 \<le> k" "findUniqueUID_loop v coll (i + 1) = template v k"
      "template v k \<notin> set coll" "\<forall>j. i + 1 \<le> j \<and> j < k \<longrightarrow> template v j \<in> set coll"
      by blast
    have "\<forall>j. i \<le> j \<and> j < k \<longrightarrow> template v j \<in> set coll"
    proof (intro allI impI)
      fix j assume "i \<le> j \<and> j < k"
      then show "template v j \<in> set coll"
        using True k(4) by (cases "j = i") auto
    qed
    with k True show ?thesis
      by (intro exI [of _ k]) (simp add: findUniqueUID_loop.simps [of v coll i])
  next
    case False
    then show ?thesis
      by (intro exI [of _ i]) (auto simp: findUniqueUID_loop.simps [of v coll i])
  qed
qed

text \<open>The counter stays within the number of collisions plus one.\<close>

lemma taken_bound:
  assumes "\<forall>j. i \<le> j \<and> j < k \<longrightarrow> template v j \<in> set coll"
  shows "k \<le> i + length coll"
proof -
  have sub: "template v ` {i..<k} \<subseteq> set coll" using assms by auto
  have "inj_on (template v) {i..<k}" by (rule inj_onI) (rule template_inj)
  then have "card (template v ` {i..<k}) = k - i" by (simp add: card_image)
  moreover have "card (template v ` {i..<k}) \<le> card (set coll)"
    using sub by (simp add: card_mono)
  moreover have "card (set coll) \<le> length coll" by (rule card_length)
  ultimately show ?thesis by linarith
qed

lemma findUniqueUID_counter_bound:
  "\<exists>k. 1 \<le> k \<and> k \<le> 1 + length coll \<and> findUniqueUID_loop v coll 1 = template v k"
proof -
  obtain k where k: "1 \<le> k" "findUniqueUID_loop v coll 1 = template v k"
    "\<forall>j. 1 \<le> j \<and> j < k \<longrightarrow> template v j \<in> set coll"
    using loop_least [of 1 v coll] by blast
  from taken_bound [OF k(3)] k(1,2) show ?thesis by blast
qed

lemma template_neq_value: "template v i \<noteq> v"
  by (simp add: template_def)

lemma template_post_1: "template ''post'' (Suc 0) = ''post-1''"
  by code_simp

text \<open>
  Claim C6. When the query of \<open>findUniqueUID\<close> finds no row, the value is returned
  unchanged; when the rows found for \<open>post\<close> are exactly \<open>post\<close>, the result is \<open>post-1\<close>;
  so two creations of the slug \<open>post\<close> in a row store \<open>post\<close> and then \<open>post-1\<close>.
\<close>

theorem findUniqueUID_scenario:
  "(findMany v = [] \<longrightarrow> findUniqueUID findMany v = v) \<and>
   (findMany ''post'' = [''post''] \<longrightarrow> findUniqueUID findMany ''post'' = ''post-1'') \<and>
   create_with_uid [] ''post'' = [''post''] \<and>
   create_with_uid (create_with_uid [] ''post'') ''post'' = [''post'', ''post-1'']"
proof (intro conjI impI)
  assume "findMany v = []"
  then show "findUniqueUID findMany v = v" by (simp add: findUniqueUID_def)
next
  assume "findMany ''post'' = [''post'']"
  moreover have "findUniqueUID_loop ''post'' [''post''] 1 = ''post-1''"
    by (subst findUniqueUID_loop.simps) (simp add: template_post_1)
  ultimately show "findUniqueUID findMany ''post'' = ''post-1''"
    by (simp add: findUniqueUID_def)
next
  show "create_with_uid [] ''post'' = [''post'']"
    by (simp add: create_with_uid_def findUniqueUID_def contains_filter_def)
next
  show "create_with_uid (create_with_uid [] ''post'') ''post'' = [''post'', ''post-1'']"
    by code_simp
qed

theorem findUniqueUID_scenario_witness:
  "contains_filter [''post''] ''page'' = [] \<and>
   findUniqueUID (contains_filter [''post'']) ''page'' = ''page'' \<and>
   contains_filter [''post''] ''post'' = [''post''] \<and>
   findUniqueUID (contains_filter [''post'']) ''post'' = ''post-1''"
proof -
  have a: "contains_filter [''post''] ''page'' = []" by code_simp
  have b: "contains_filter [''post''] ''post'' = [''post'']" by code_simp
  show ?thesis
    using a b findUniqueUID_scenario [of "contains_filter [''post'']" "''page''"] by simp
qed

text \<open>
  Claim C10. When the query finds at least one row, \<open>findUniqueUID\<close> never returns the
  value itself: it returns \<open>value-i\<close> for the least \<open>i \<ge> 1\<close> whose \<open>value-i\<close> is not among the
  rows found, also when the value itself is not among them.
\<close>

theorem findUniqueUID_suffixed:
  assumes "findMany v \<noteq> []"
  shows "findUniqueUID findMany v \<noteq> v \<and>
    (\<exists>i\<ge>1. findUniqueUID findMany v = template v i \<and>
       template v i \<notin> set (findMany v) \<and>
       (\<forall>j. 1 \<le> j \<and> j < i \<longrightarrow> template v j \<in> set (findMany v)))"
proof -
  have eq: "findUniqueUID findMany v = findUniqueUID_loop v (findMany v) 1"
    using assms by (simp add: findUniqueUID_def)
  obtain k where k: "1 \<le> k" "findUniqueUID_loop v (findMany v) 1 = template v k"
    "template v k \<notin> set (findMany v)"
    "\<forall>j. 1 \<le> j \<and> j < k \<longrightarrow> template v j \<in> set (findMany v)"
    using loop_least [of 1 v "findMany v"] by blast
  have "findUniqueUID findMany v \<noteq> v" unfolding eq k(2) by (rule template_neq_value)
  moreover have "\<exists>i\<ge>1. findUniqueUID findMany v = template v i \<and>
       template v i \<notin> set (findMany v) \<and>
       (\<forall>j. 1 \<le> j \<and> j < i \<longrightarrow> template v j \<in> set (findMany v))"
    using k eq by (intro exI [of _ k]) simp
  ultimately show ?thesis by simp
qed

theorem findUniqueUID_suffixed_witness:
  "contains_filter [''my-post''] ''post'' = [''my-post''] \<and>
   ''post'' \<notin> set (contains_filter [''my-post''] ''post'') \<and>
   findUniqueUID (contains_filter [''my-post'']) ''post'' = ''post-1'' \<and>
   findUniqueUID (contains_filter [''my-post'']) ''post'' \<noteq> ''post''"
proof -
  have a: "contains_filter [''my-post''] ''post'' = [''my-post'']" by code_simp
  have b: "findUniqueUID (contains_filter [''my-post'']) ''post'' = ''post-1''" by code_simp
  have c: "contains_filter [''my-post''] ''post'' \<noteq> []" using a by simp
  show ?thesis
    using a b findUniqueUID_suffixed [of "contains_filter [''my-post'']" "''post''", OF c] by simp
qed

section \<open>Properties of \<open>transaction\<close>\<close>

subsection \<open>Calls that join an ambient transaction\<close>


lemma list_all_hook_events [simp]: "list_all is_hook_call (hook_events ho)"
  by (simp add: hook_events_def split: option.splits)

lemma call_hook_world: "snd (call_hook ho w) = w\<lparr>trace := trace w @ hook_events ho\<rparr>"
  by (simp add: call_hook_def hook_events_def split: option.splits)

lemma run_manual_joined:
  "\<not> mh_notNested mh \<Longrightarrow> run_manual d mh ops w = (None, w)"
  by (induction d mh ops w rule: run_manual.induct) (simp_all add: mh_commit_def mh_rollback_def)

lemma joined_refl: "joined w w"
  unfolding joined_def by (intro exI [of _ "[]"]) simp

lemma joined_trans: "joined w w1 \<Longrightarrow> joined w1 w2 \<Longrightarrow> joined w w2"
  unfolding joined_def
proof -
  assume "\<exists>evs. w1 = w\<lparr>trace := trace w @ evs\<rparr> \<and> list_all is_hook_call evs"
    and "\<exists>evs. w2 = w1\<lparr>trace := trace w1 @ evs\<rparr> \<and> list_all is_hook_call evs"
  then obtain a b where a: "w1 = w\<lparr>trace := trace w @ a\<rparr>" "list_all is_hook_call a"
    and b: "w2 = w1\<lparr>trace := trace w1 @ b\<rparr>" "list_all is_hook_call b" by blast
  show "\<exists>evs. w2 = w\<lparr>trace := trace w @ evs\<rparr> \<and> list_all is_hook_call evs"
    by (intro exI [of _ "a @ b"]) (simp add: a b)
qed

lemma joined_ambient: "joined w w' \<Longrightarrow> ambient w' = ambient w"
  by (auto simp: joined_def)

lemma joined_restore: "joined w w' \<Longrightarrow> w'\<lparr>ambient := ambient w\<rparr> = w'"
  unfolding joined_def by (elim exE conjE, rule world.equality) simp_all

lemma call_hook_joined: "joined w (snd (call_hook ho w))"
  unfolding joined_def by (intro exI [of _ "hook_events ho"]) (simp add: call_hook_world)

lemma catch_block_joined: "joined w (snd (catch_block d False trx hk e w))"
proof -
  have "snd (catch_block d False trx hk e w) = snd (call_hook (onError hk) w)"
    by (cases "call_hook (onError hk) w") (simp add: catch_block_def split: option.splits)
  then show ?thesis by (simp add: call_hook_joined)
qed

lemma try_rest_joined: "joined w (snd (try_rest d False trx hk res w))"
proof (cases "call_hook (onSuccess hk) w")
  case (Pair x w1)
  then have j1: "joined w w1" using call_hook_joined [of w "onSuccess hk"] by simp
  show ?thesis
  proof (cases x)
    case None
    then show ?thesis using Pair j1 by (simp add: try_rest_def)
  next
    case (Some e2)
    then have "snd (try_rest d False trx hk res w) = snd (catch_block d False trx hk e2 w1)"
      using Pair by (simp add: try_rest_def throw_def)
    then show ?thesis using joined_trans [OF j1 catch_block_joined [of w1 d trx hk e2]] by simp
  qed
qed

lemma nested_joined:
  "(\<forall>t. ambient w = Some t \<longrightarrow> joined w (snd (transaction d (cbo :: 'a callback option) hk w)))"
  "(\<forall>t. ambient w = Some t \<longrightarrow> joined w (snd (run_callback d (cb :: 'a callback) trx w)))"
proof (induction d cbo hk w and d cb trx w rule: transaction_run_callback.induct)
  case (1 d cbo hk w)
  show ?case
  proof (intro allI impI)
    fix t assume amb: "ambient w = Some t"
    then have oj: "open_or_join w = (t, w)" by (simp add: open_or_join_def ctx_get_def)
    have same: "w\<lparr>ambient := Some t\<rparr> = w" using amb by (metis world.surjective world.update_convs(7) world.select_convs(7))
    show "joined w (snd (transaction d cbo hk w))"
    proof (cases cbo)
      case None
      then show ?thesis by (simp add: transaction.simps oj joined_refl)
    next
      case (Some cb)
      have ih: "joined w (snd (run_callback d cb t w))"
        using 1 [OF refl oj [symmetric] Some] amb by simp
      obtain rc w3 where rc: "run_callback d cb t w = (rc, w3)" by (cases "run_callback d cb t w")
      with ih have j3: "joined w w3" by simp
      have amb3: "ambient w3 = Some t" using joined_ambient [OF j3] amb by simp
      show ?thesis
      proof (cases rc)
        case (Inl e)
        have "joined w3 (snd (catch_block d False t hk e w3))"
          by (rule catch_block_joined)
        then have j4: "joined w (snd (catch_block d False t hk e w3))"
          using j3 joined_trans by blast
        have "snd (transaction d cbo hk w) = (snd (catch_block d False t hk e w3))\<lparr>ambient := ambient w\<rparr>"
          by (simp add: transaction.simps oj Some ctx_run_def same rc Inl ctx_get_def amb throw_def split: prod.splits)
        with j4 show ?thesis by (simp add: joined_restore)
      next
        case (Inr res)
        have "joined w3 (snd (try_rest d False t hk res w3))"
          by (rule try_rest_joined)
        then have j4: "joined w (snd (try_rest d False t hk res w3))"
          using j3 joined_trans by blast
        have "snd (transaction d cbo hk w) = (snd (try_rest d False t hk res w3))\<lparr>ambient := ambient w\<rparr>"
          by (simp add: transaction.simps oj Some ctx_run_def same rc Inr ctx_get_def amb split: prod.splits)
        with j4 show ?thesis by (simp add: joined_restore)
      qed
    qed
  qed
next
  case (2 d v trx w)
  then show ?case by (simp add: joined_refl)
next
  case (3 d e trx w)
  then show ?case by (simp add: joined_refl)
next
  case (4 d cb hk k trx w)
  show ?case
  proof (intro allI impI)
    fix t assume amb: "ambient w = Some t"
    obtain r w1 where tr: "transaction d (Some cb) hk w = (r, w1)" by (cases "transaction d (Some cb) hk w")
    have j1: "joined w w1" using 4(1) amb tr by simp
    show "joined w (snd (run_callback d (Nested cb hk k) trx w))"
    proof (cases r)
      case (Inl e)
      then show ?thesis using j1 tr by simp
    next
      case (Inr b)
      have "joined w1 (snd (run_callback d k trx w1))"
        using 4(2) [OF tr [symmetric] Inr] joined_ambient [OF j1] amb by simp
      then show ?thesis using j1 tr Inr joined_trans by simp
    qed
  qed
next
  case (5 d cb hk k kerr trx w)
  show ?case
  proof (intro allI impI)
    fix t assume amb: "ambient w = Some t"
    obtain r w1 where tr: "transaction d (Some cb) hk w = (r, w1)" by (cases "transaction d (Some cb) hk w")
    have j1: "joined w w1" using 5(1) amb tr by simp
    show "joined w (snd (run_callback d (NestedCatch cb hk k kerr) trx w))"
    proof (cases r)
      case (Inl e)
      have "joined w1 (snd (run_callback d kerr trx w1))"
        using 5(2) [OF tr [symmetric] Inl] joined_ambient [OF j1] amb by simp
      then show ?thesis using j1 tr Inl joined_trans by simp
    next
      case (Inr b)
      have "joined w1 (snd (run_callback d k trx w1))"
        using 5(3) [OF tr [symmetric] Inr] joined_ambient [OF j1] amb by simp
      then show ?thesis using j1 tr Inr joined_trans by simp
    qed
  qed
next
  case (6 d ops k trx w)
  show ?case
  proof (intro allI impI)
    fix t assume amb: "ambient w = Some t"
    have tr: "transaction d None no_hooks w = (Inr (ManualHandle \<lparr>mh_trx = t, mh_notNested = False\<rparr>), w)"
      using amb by (simp add: transaction.simps open_or_join_def ctx_get_def)
    have rm: "run_manual d \<lparr>mh_trx = t, mh_notNested = False\<rparr> ops w = (None, w)"
      by (simp add: run_manual_joined)
    have "joined w (snd (run_callback d k trx w))"
      using 6(2) [OF tr [symmetric] refl refl rm [symmetric] refl] amb by simp
    then show "joined w (snd (run_callback d (Manual ops k) trx w))"
      by (simp add: tr rm)
  qed
qed

subsection \<open>What a call leaves untouched\<close>


lemma same_instance_refl: "same_instance w w"
  by (simp add: same_instance_def)

lemma same_instance_trans: "same_instance w w1 \<Longrightarrow> same_instance w1 w2 \<Longrightarrow> same_instance w w2"
  by (auto simp: same_instance_def intro: prefix_order.trans)

lemma open_or_join_same: "same_instance w (snd (open_or_join w))"
  by (simp add: open_or_join_def connection_transaction_def same_instance_def split: option.splits)

lemma call_hook_same: "same_instance w (snd (call_hook ho w))"
  by (simp add: call_hook_def same_instance_def split: option.splits)

lemma catch_block_same: "same_instance w (snd (catch_block d nn trx hk e w))"
proof -
  have a: "same_instance w (snd (if nn then trx_rollback d trx w else (None, w)))"
    by (simp add: trx_rollback_def same_instance_def)
  show ?thesis
  proof (cases "if nn then trx_rollback d trx w else (None, w)")
    case (Pair x w1)
    with a have s1: "same_instance w w1" by simp
    show ?thesis
    proof (cases x)
      case (Some e1)
      then show ?thesis using Pair s1 by (simp add: catch_block_def)
    next
      case None
      have "snd (catch_block d nn trx hk e w) = snd (call_hook (onError hk) w1)"
        using Pair None by (cases "call_hook (onError hk) w1") (simp add: catch_block_def split: option.splits)
      then show ?thesis using same_instance_trans [OF s1 call_hook_same [of w1 "onError hk"]] by simp
    qed
  qed
qed

lemma try_rest_same: "same_instance w (snd (try_rest d nn trx hk res w))"
proof -
  have a: "same_instance w (snd (if nn then trx_commit d trx w else (None, w)))"
    by (simp add: trx_commit_def same_instance_def)
  show ?thesis
  proof (cases "if nn then trx_commit d trx w else (None, w)")
    case (Pair x w1)
    with a have s1: "same_instance w w1" by simp
    show ?thesis
    proof (cases x)
      case (Some e1)
      then have "snd (try_rest d nn trx hk res w) = snd (catch_block d nn trx hk e1 w1)"
        using Pair by (simp add: try_rest_def throw_def)
      then show ?thesis using same_instance_trans [OF s1 catch_block_same [of w1 d nn trx hk e1]] by simp
    next
      case None
      show ?thesis
      proof (cases "call_hook (onSuccess hk) w1")
        case (Pair y w2)
        then have s2: "same_instance w w2"
          using same_instance_trans [OF s1 call_hook_same [of w1 "onSuccess hk"]] by simp
        show ?thesis
        proof (cases y)
          case None
          then show ?thesis using \<open>(if nn then trx_commit d trx w else (None, w)) = (x, w1)\<close> \<open>x = None\<close> Pair s2
            by (simp add: try_rest_def)
        next
          case (Some e2)
          then have "snd (try_rest d nn trx hk res w) = snd (catch_block d nn trx hk e2 w2)"
            using \<open>(if nn then trx_commit d trx w else (None, w)) = (x, w1)\<close> \<open>x = None\<close> Pair
            by (simp add: try_rest_def throw_def)
          then show ?thesis using same_instance_trans [OF s2 catch_block_same [of w2 d nn trx hk e2]] by simp
        qed
      qed
    qed
  qed
qed

lemma run_manual_same: "same_instance w (snd (run_manual d mh ops w))"
proof (induction d mh ops w rule: run_manual.induct)
  case (1 d mh w)
  then show ?case by (simp add: same_instance_refl)
next
  case (2 d mh ops w)
  have a: "same_instance w (snd (mh_commit d mh w))"
    by (simp add: mh_commit_def trx_commit_def same_instance_def)
  show ?case
  proof (cases "mh_commit d mh w")
    case (Pair x w1)
    then show ?thesis using a 2 same_instance_trans by (cases x) auto
  qed
next
  case (3 d mh ops w)
  have a: "same_instance w (snd (mh_rollback d mh w))"
    by (simp add: mh_rollback_def trx_rollback_def same_instance_def)
  show ?case
  proof (cases "mh_rollback d mh w")
    case (Pair x w1)
    then show ?thesis using a 3 same_instance_trans by (cases x) auto
  qed
qed

text \<open>What \<open>transaction\<close> does with a callback, in terms of the callback's own outcome.\<close>

lemma transaction_callback_unfold:
  assumes "open_or_join w = (trx, w1)"
    and "run_callback d cb trx (w1\<lparr>ambient := Some trx\<rparr>) = (rc, w3)"
  shows "transaction d (Some cb) hk w =
     (case rc of
        Inr res \<Rightarrow> (map_sum id Value (fst (try_rest d (ctx_get w = None) trx hk res w3)),
                    (snd (try_rest d (ctx_get w = None) trx hk res w3))\<lparr>ambient := ambient w1\<rparr>)
      | Inl error \<Rightarrow> (Inl (fst (catch_block d (ctx_get w = None) trx hk error w3)),
                      (snd (catch_block d (ctx_get w = None) trx hk error w3))\<lparr>ambient := ambient w1\<rparr>))"
  using assms
  by (simp add: transaction.simps ctx_run_def throw_def Let_def split: prod.splits sum.splits)

lemma same_instance_both:
  "same_instance w (snd (transaction d (cbo :: 'a callback option) hk w))"
  "same_instance w (snd (run_callback d (cb :: 'a callback) trx w))"
proof (induction d cbo hk w and d cb trx w rule: transaction_run_callback.induct)
  case (1 d cbo hk w)
  obtain trx w1 where oj: "open_or_join w = (trx, w1)" by (cases "open_or_join w")
  then have s1: "same_instance w w1" using open_or_join_same [of w] by simp
  show ?case
  proof (cases cbo)
    case None
    then show ?thesis using oj s1 by (simp add: transaction.simps)
  next
    case (Some cb)
    obtain rc w3 where rc: "run_callback d cb trx (w1\<lparr>ambient := Some trx\<rparr>) = (rc, w3)"
      by (cases "run_callback d cb trx (w1\<lparr>ambient := Some trx\<rparr>)")
    have "same_instance (w1\<lparr>ambient := Some trx\<rparr>) w3"
      using 1 [OF refl oj [symmetric] Some, of "w1\<lparr>ambient := Some trx\<rparr>"] rc by simp
    then have s3: "same_instance w (w3\<lparr>ambient := ambient w1\<rparr>)"
      using s1 by (auto simp: same_instance_def intro: prefix_order.trans)
    show ?thesis
    proof (cases rc)
      case (Inl e)
      have "same_instance w3 (snd (catch_block d (ctx_get w = None) trx hk e w3))"
        by (rule catch_block_same)
      with s3 show ?thesis
        unfolding Some transaction_callback_unfold [OF oj rc] Inl
        by (auto simp: same_instance_def intro: prefix_order.trans)
    next
      case (Inr res)
      have "same_instance w3 (snd (try_rest d (ctx_get w = None) trx hk res w3))"
        by (rule try_rest_same)
      with s3 show ?thesis
        unfolding Some transaction_callback_unfold [OF oj rc] Inr
        by (auto simp: same_instance_def intro: prefix_order.trans)
    qed
  qed
next
  case (2 d v trx w)
  then show ?case by (simp add: same_instance_refl)
next
  case (3 d e trx w)
  then show ?case by (simp add: same_instance_refl)
next
  case (4 d cb hk k trx w)
  obtain r w1 where tr: "transaction d (Some cb) hk w = (r, w1)" by (cases "transaction d (Some cb) hk w")
  have s1: "same_instance w w1" using 4(1) tr by simp
  show ?case
  proof (cases r)
    case (Inl e)
    then show ?thesis using s1 tr by simp
  next
    case (Inr b)
    have "same_instance w1 (snd (run_callback d k trx w1))"
      using 4(2) [OF tr [symmetric] Inr] by simp
    then show ?thesis using s1 tr Inr same_instance_trans by simp
  qed
next
  case (5 d cb hk k kerr trx w)
  obtain r w1 where tr: "transaction d (Some cb) hk w = (r, w1)" by (cases "transaction d (Some cb) hk w")
  have s1: "same_instance w w1" using 5(1) tr by simp
  show ?case
  proof (cases r)
    case (Inl e)
    have "same_instance w1 (snd (run_callback d kerr trx w1))"
      using 5(2) [OF tr [symmetric] Inl] by simp
    then show ?thesis using s1 tr Inl same_instance_trans by simp
  next
    case (Inr b)
    have "same_instance w1 (snd (run_callback d k trx w1))"
      using 5(3) [OF tr [symmetric] Inr] by simp
    then show ?thesis using s1 tr Inr same_instance_trans by simp
  qed
next
  case (6 d ops k trx w)
  obtain r w1 where tr: "transaction d (None :: 'a callback option) no_hooks w = (r, w1)"
    by (cases "transaction d (None :: 'a callback option) no_hooks w")
  have s1: "same_instance w w1" using 6(1) tr by simp
  show ?case
  proof (cases r)
    case (Inl e)
    then show ?thesis using s1 tr by simp
  next
    case (Inr b)
    show ?thesis
    proof (cases b)
      case (Value v)
      then show ?thesis using s1 tr Inr by simp
    next
      case (ManualHandle mh)
      obtain x w2 where rm: "run_manual d mh ops w1 = (x, w2)" by (cases "run_manual d mh ops w1")
      then have s2: "same_instance w w2"
        using same_instance_trans [OF s1 run_manual_same [of w1 d mh ops]] by simp
      show ?thesis
      proof (cases x)
        case (Some e)
        then show ?thesis using tr Inr ManualHandle rm s2 by simp
      next
        case None
        have "same_instance w2 (snd (run_callback d k trx w2))"
          using 6(2) [OF tr [symmetric] Inr ManualHandle rm [symmetric] None] by simp
        then show ?thesis using tr Inr ManualHandle rm None s2 same_instance_trans by simp
      qed
    qed
  qed
qed

subsection \<open>Attempts to finalize\<close>


lemma finalizations_append [simp]: "finalizations (xs @ ys) = finalizations xs @ finalizations ys"
  by (simp add: finalizations_def)

lemma finalizations_hooks: "list_all is_hook_call evs \<Longrightarrow> finalizations evs = []"
proof (induction evs)
  case Nil
  then show ?case by (simp add: finalizations_def)
next
  case (Cons e evs)
  then show ?case by (cases e) (simp_all add: finalizations_def)
qed

lemma finalizations_hook_events [simp]: "finalizations (hook_events ho) = []"
  by (simp add: finalizations_hooks)

lemma joined_finalizations: "joined w w' \<Longrightarrow> finalizations (trace w') = finalizations (trace w)"
  by (auto simp: joined_def finalizations_hooks)

lemma joined_prefix: "joined w w' \<Longrightarrow> prefix (trace w) (trace w')"
  by (auto simp: joined_def)

lemma new_events_prefix: "prefix (trace w) (trace w') \<Longrightarrow> trace w' = trace w @ new_events w w'"
  by (auto simp: new_events_def prefix_def)

lemma finalizations_new:
  "prefix (trace w) (trace w') \<Longrightarrow> finalizations (trace w') = finalizations (trace w) @ fs
     \<Longrightarrow> finalizations (new_events w w') = fs"
  using new_events_prefix [of w w'] by (metis finalizations_append same_append_eq)

lemma catch_block_trace:
  "trace (snd (catch_block d nn trx hk e w)) =
     trace w @ (if nn then [TrxRollback trx] else []) @
       (if nn \<and> rollback_result d trx (trace w) \<noteq> None then [] else hook_events (onError hk))"
  by (simp add: catch_block_def trx_rollback_def call_hook_def hook_events_def split: option.splits)

lemma catch_block_error:
  "fst (catch_block d nn trx hk e w) =
     (case (if nn then rollback_result d trx (trace w) else None) of
        Some e1 \<Rightarrow> e1
      | None \<Rightarrow> (case onError hk of None \<Rightarrow> e
                 | Some h \<Rightarrow> (case hook_outcome h of None \<Rightarrow> e | Some e2 \<Rightarrow> e2)))"
  by (simp add: catch_block_def trx_rollback_def call_hook_def split: option.splits)

lemma catch_block_finalizations:
  "finalizations (trace (snd (catch_block d nn trx hk e w))) =
     finalizations (trace w) @ (if nn then [TrxRollback trx] else [])"
  by (simp add: catch_block_trace) (simp add: finalizations_def)

lemma try_rest_finalizations:
  "finalizations (trace (snd (try_rest d nn trx hk res w))) =
     finalizations (trace w) @
       (if nn then (if isl (fst (try_rest d nn trx hk res w)) then [TrxCommit trx, TrxRollback trx]
                    else [TrxCommit trx])
        else [])"
proof (cases "if nn then trx_commit d trx w else (None, w)")
  case (Pair x w1)
  then have t1: "trace w1 = trace w @ (if nn then [TrxCommit trx] else [])"
    by (auto simp: trx_commit_def split: if_splits)
  show ?thesis
  proof (cases x)
    case (Some e1)
    then have eq: "try_rest d nn trx hk res w = throw (catch_block d nn trx hk e1 w1)"
      using Pair by (simp add: try_rest_def)
    have nn: nn using Pair Some by (auto split: if_splits)
    show ?thesis
      unfolding eq by (simp add: throw_def catch_block_finalizations t1 nn) (simp add: finalizations_def)
  next
    case None
    show ?thesis
    proof (cases "call_hook (onSuccess hk) w1")
      case (Pair y w2)
      then have t2: "trace w2 = trace w1 @ hook_events (onSuccess hk)"
        using call_hook_world [of "onSuccess hk" w1] by simp
      show ?thesis
      proof (cases y)
        case None
        then have eq: "try_rest d nn trx hk res w = (Inr res, w2)"
          using \<open>(if nn then trx_commit d trx w else (None, w)) = (x, w1)\<close> \<open>x = None\<close> Pair
          by (simp add: try_rest_def)
        show ?thesis unfolding eq by (simp add: t1 t2) (simp add: finalizations_def)
      next
        case (Some e2)
        then have eq: "try_rest d nn trx hk res w = throw (catch_block d nn trx hk e2 w2)"
          using \<open>(if nn then trx_commit d trx w else (None, w)) = (x, w1)\<close> \<open>x = None\<close> Pair
          by (simp add: try_rest_def)
        show ?thesis
          unfolding eq by (simp add: throw_def catch_block_finalizations t1 t2) (simp add: finalizations_def)
      qed
    qed
  qed
qed

lemma try_rest_result:
  "try_rest d nn trx hk res w =
     (case (if nn then commit_result d trx (trace w) else None) of
        Some e1 \<Rightarrow> throw (catch_block d nn trx hk e1 (w\<lparr>trace := trace w @ [TrxCommit trx]\<rparr>))
      | None \<Rightarrow>
         (case onSuccess hk of
            None \<Rightarrow> (Inr res, w\<lparr>trace := trace w @ (if nn then [TrxCommit trx] else [])\<rparr>)
          | Some h \<Rightarrow>
             (case hook_outcome h of
                None \<Rightarrow> (Inr res, w\<lparr>trace := trace w @ (if nn then [TrxCommit trx] else []) @ [HookCalled h]\<rparr>)
              | Some e2 \<Rightarrow> throw (catch_block d nn trx hk e2
                   (w\<lparr>trace := trace w @ (if nn then [TrxCommit trx] else []) @ [HookCalled h]\<rparr>)))))"
  by (simp add: try_rest_def trx_commit_def call_hook_def split: option.splits)

lemma try_rest_commits:
  "filter (\<lambda>e. e = TrxCommit trx) (new_events w (snd (try_rest d nn trx hk res w))) =
     (if nn then [TrxCommit trx] else [])"
  unfolding try_rest_result
  by (auto simp: throw_def catch_block_trace new_events_def hook_events_def split: option.splits)

section \<open>The claims about \<open>transaction\<close>\<close>

text \<open>
  Claim C1, as far as it holds. A call that finds an ambient handle never invokes commit
  or rollback, on that handle or any other, whatever its callback does. A call that finds
  none opens a handle; nothing that runs inside its callback, at any depth of nesting,
  finalizes anything; the call itself invokes exactly one rollback when the callback
  failed and exactly one commit when the call returns normally, and never more than a
  commit followed by a rollback.
\<close>

theorem transaction_finalization:
  fixes cbo :: "'a callback option"
  assumes run: "transaction d cbo hk w = (r, w')"
  shows "prefix (trace w) (trace w') \<and>
    (case ctx_get w of
       Some t \<Rightarrow> finalizations (new_events w w') = []
     | None \<Rightarrow>
         (case cbo of
            None \<Rightarrow> new_events w w' = [TrxBegin (next_handle w)]
          | Some cb \<Rightarrow>
              (let trx = next_handle w;
                   inner = run_callback d cb trx ((snd (open_or_join w))\<lparr>ambient := Some trx\<rparr>)
               in take 1 (new_events w w') = [TrxBegin trx] \<and>
                  prefix (trace w) (trace (snd inner)) \<and>
                  prefix (trace (snd inner)) (trace w') \<and>
                  finalizations (new_events w (snd inner)) = [] \<and>
                  finalizations (new_events w w') \<in>
                    set [[TrxCommit trx], [TrxRollback trx], [TrxCommit trx, TrxRollback trx]] \<and>
                  (isl (fst inner) \<longrightarrow> finalizations (new_events w w') = [TrxRollback trx]) \<and>
                  (\<not> isl r \<longrightarrow> finalizations (new_events w w') = [TrxCommit trx]))))"
proof -
  have pre: "prefix (trace w) (trace w')"
    using same_instance_both(1) [of w d cbo hk] run by (simp add: same_instance_def)
  show ?thesis
  proof (cases "ctx_get w")
    case (Some t)
    then have "joined w w'" using nested_joined(1) [of w d cbo hk] run by (simp add: ctx_get_def)
    then have "finalizations (trace w') = finalizations (trace w) @ []"
      by (simp add: joined_finalizations)
    then show ?thesis using pre Some finalizations_new by simp
  next
    case None
    define trx where "trx = next_handle w"
    define w1 where "w1 = snd (open_or_join w)"
    have oj: "open_or_join w = (trx, w1)"
      using None by (simp add: open_or_join_def connection_transaction_def trx_def w1_def)
    have t1: "trace w1 = trace w @ [TrxBegin trx]"
      using None by (simp add: open_or_join_def connection_transaction_def trx_def w1_def)
    show ?thesis
    proof (cases cbo)
      case no_cb: None
      then have "w' = w1" using run oj by (simp add: transaction.simps)
      then show ?thesis using pre None no_cb t1 by (simp add: new_events_def trx_def)
    next
      case (Some cb)
      obtain rc w3 where rc: "run_callback d cb trx (w1\<lparr>ambient := Some trx\<rparr>) = (rc, w3)"
        by (cases "run_callback d cb trx (w1\<lparr>ambient := Some trx\<rparr>)")
      have j: "joined (w1\<lparr>ambient := Some trx\<rparr>) w3"
        using nested_joined(2) [of "w1\<lparr>ambient := Some trx\<rparr>" d cb trx] rc by simp
      have p3: "prefix (trace w) (trace w3)"
        using joined_prefix [OF j] t1 by (auto simp: prefix_def)
      have f3: "finalizations (trace w3) = finalizations (trace w)"
        using joined_finalizations [OF j] t1 by (simp add: finalizations_def)
      have unf: "transaction d (Some cb) hk w =
         (case rc of
            Inr res \<Rightarrow> (map_sum id Value (fst (try_rest d True trx hk res w3)),
                        (snd (try_rest d True trx hk res w3))\<lparr>ambient := ambient w1\<rparr>)
          | Inl error \<Rightarrow> (Inl (fst (catch_block d True trx hk error w3)),
                          (snd (catch_block d True trx hk error w3))\<lparr>ambient := ambient w1\<rparr>))"
        using transaction_callback_unfold [OF oj rc, of hk] None by (cases rc) simp_all
      have p34: "prefix (trace w3) (trace w')"
      proof (cases rc)
        case (Inl e)
        then show ?thesis
          using run unf Some catch_block_same [of w3 d True trx hk e]
          by (auto simp: same_instance_def)
      next
        case (Inr res)
        then show ?thesis
          using run unf Some try_rest_same [of w3 d True trx hk res]
          by (auto simp: same_instance_def)
      qed
      have fin: "finalizations (trace w') = finalizations (trace w) @
           (case rc of Inl e \<Rightarrow> [TrxRollback trx]
            | Inr res \<Rightarrow> (if isl r then [TrxCommit trx, TrxRollback trx] else [TrxCommit trx]))"
      proof (cases rc)
        case (Inl e)
        then have "w' = (snd (catch_block d True trx hk e w3))\<lparr>ambient := ambient w1\<rparr>"
          using run unf Some by simp
        then show ?thesis using Inl f3 by (simp add: catch_block_finalizations)
      next
        case (Inr res)
        then have "w' = (snd (try_rest d True trx hk res w3))\<lparr>ambient := ambient w1\<rparr>"
          and "r = map_sum id Value (fst (try_rest d True trx hk res w3))"
          using run unf Some by simp_all
        then show ?thesis using Inr f3 try_rest_finalizations [of d True trx hk res w3]
          by (cases "fst (try_rest d True trx hk res w3)") simp_all
      qed
      have fin_new: "finalizations (new_events w w') =
           (case rc of Inl e \<Rightarrow> [TrxRollback trx]
            | Inr res \<Rightarrow> (if isl r then [TrxCommit trx, TrxRollback trx] else [TrxCommit trx]))"
        using finalizations_new [OF pre fin] .
      have f3_new: "finalizations (new_events w w3) = []"
        using finalizations_new [OF p3, of "[]"] f3 by simp
      have begins: "take 1 (new_events w w') = [TrxBegin trx]"
      proof -
        have "prefix (trace w @ [TrxBegin trx]) (trace w')"
          using joined_prefix [OF j] t1 p34 by (auto intro: prefix_order.trans)
        then show ?thesis by (auto simp: prefix_def new_events_def)
      qed
      have isl_r: "isl rc \<Longrightarrow> isl r"
        using run unf Some by (cases rc) auto
      have inner_eq: "run_callback d cb (next_handle w)
          ((snd (open_or_join w))\<lparr>ambient := Some (next_handle w)\<rparr>) = (rc, w3)"
        using rc by (simp add: trx_def w1_def)
      have fin_cases: "finalizations (new_events w w') \<in>
          set [[TrxCommit trx], [TrxRollback trx], [TrxCommit trx, TrxRollback trx]]"
        using fin_new by (cases rc) simp_all
      have fin_failed: "isl rc \<Longrightarrow> finalizations (new_events w w') = [TrxRollback trx]"
        using fin_new by (cases rc) simp_all
      have fin_ok: "\<not> isl r \<Longrightarrow> finalizations (new_events w w') = [TrxCommit trx]"
        using fin_new isl_r by (cases rc) simp_all
      show ?thesis
        using pre p3 p34 f3_new begins fin_cases fin_failed fin_ok
        by (simp add: None Some Let_def inner_eq trx_def)
    qed
  qed
qed

text \<open>
  The handle is not finalized exactly once in every case: when \<open>onSuccess\<close> throws after
  the commit, the handler also invokes rollback on the committed handle.
\<close>

theorem transaction_finalization_counterexample:
  "finalizations (new_events (Database_constructor [])
     (snd (transaction reliable_driver (Some (Return (7::int)))
        \<lparr>onError = None,
         onSuccess = Some (Hook 1 (Some (JsError ''Error'' ''onSuccess failed'')))\<rparr>
        (Database_constructor [])))) = [TrxCommit 0, TrxRollback 0]"
  by code_simp

theorem transaction_finalization_witness:
  "ctx_get (Database_constructor []) = None \<and>
   finalizations (new_events (Database_constructor [])
     (snd (transaction reliable_driver
        (Some (Nested (Nested (Return 1) no_hooks (Return 2)) no_hooks (Return (3::int))))
        no_hooks (Database_constructor [])))) = [TrxCommit 0] \<and>
   ctx_get ((Database_constructor [])\<lparr>ambient := Some 5\<rparr>) = Some 5 \<and>
   finalizations (new_events ((Database_constructor [])\<lparr>ambient := Some 5\<rparr>)
     (snd (transaction reliable_driver
        (Some (Nested (Nested (Return 1) no_hooks (Return 2)) no_hooks (Return (3::int))))
        no_hooks ((Database_constructor [])\<lparr>ambient := Some 5\<rparr>)))) = []"
proof -
  let ?cb = "Nested (Nested (Return 1) no_hooks (Return 2)) no_hooks (Return (3::int))"
  let ?w = "Database_constructor []"
  let ?X = "transaction reliable_driver (Some ?cb) no_hooks ?w"
  let ?w5 = "(Database_constructor [])\<lparr>ambient := Some 5\<rparr>"
  let ?Y = "transaction reliable_driver (Some ?cb) no_hooks ?w5"
  have runX: "?X = (fst ?X, snd ?X)" by simp
  have runY: "?Y = (fst ?Y, snd ?Y)" by simp
  have amb: "ctx_get ?w = None" by code_simp
  have amb5: "ctx_get ?w5 = Some 5" by code_simp
  have ok: "\<not> isl (fst ?X)" by code_simp
  have nh: "next_handle ?w = 0" by code_simp
  have a: "finalizations (new_events ?w (snd ?X)) = [TrxCommit 0]"
    using transaction_finalization [OF runX] amb ok nh by (simp add: Let_def)
  have b: "finalizations (new_events ?w5 (snd ?Y)) = []"
    using transaction_finalization [OF runY] amb5 by simp
  from a b amb amb5 show ?thesis by simp
qed

text \<open>
  Claim C2, as far as it holds. When the callback throws, a rollback is invoked if and
  only if this call opened the handle; unless that rollback fails, \<open>onError\<close> is called after
  it; and unless the rollback or \<open>onError\<close> fails, the error that reaches the caller is the
  one the callback threw. A failing rollback or hook replaces it with its own error.
\<close>

theorem transaction_callback_failure:
  fixes cb :: "'a callback"
  assumes oj: "open_or_join w = (trx, w1)"
    and cb_fails: "run_callback d cb trx (w1\<lparr>ambient := Some trx\<rparr>) = (Inl e, w3)"
    and run: "transaction d (Some cb) hk w = (r, w')"
  shows "trace w' =
      trace w3 @ (if ctx_get w = None then [TrxRollback trx] else []) @
        (if ctx_get w = None \<and> rollback_result d trx (trace w3) \<noteq> None then []
         else hook_events (onError hk)) \<and>
    r = Inl (case (if ctx_get w = None then rollback_result d trx (trace w3) else None) of
               Some e1 \<Rightarrow> e1
             | None \<Rightarrow> (case onError hk of None \<Rightarrow> e
                        | Some h \<Rightarrow> (case hook_outcome h of None \<Rightarrow> e | Some e2 \<Rightarrow> e2))) \<and>
    ((ctx_get w = None \<longrightarrow> rollback_result d trx (trace w3) = None) \<and>
     (\<forall>h. onError hk = Some h \<longrightarrow> hook_outcome h = None)
       \<longrightarrow> r = Inl e \<and>
           trace w' = trace w3 @ (if ctx_get w = None then [TrxRollback trx] else []) @
             hook_events (onError hk))"
proof -
  have unf: "(r, w') = (Inl (fst (catch_block d (ctx_get w = None) trx hk e w3)),
        (snd (catch_block d (ctx_get w = None) trx hk e w3))\<lparr>ambient := ambient w1\<rparr>)"
    using transaction_callback_unfold [OF oj cb_fails, of hk] run by simp
  then have r: "r = Inl (fst (catch_block d (ctx_get w = None) trx hk e w3))"
    and w': "trace w' = trace (snd (catch_block d (ctx_get w = None) trx hk e w3))"
    by simp_all
  have a: "trace w' =
      trace w3 @ (if ctx_get w = None then [TrxRollback trx] else []) @
        (if ctx_get w = None \<and> rollback_result d trx (trace w3) \<noteq> None then []
         else hook_events (onError hk))"
    unfolding w' by (rule catch_block_trace)
  have b: "r = Inl (case (if ctx_get w = None then rollback_result d trx (trace w3) else None) of
               Some e1 \<Rightarrow> e1
             | None \<Rightarrow> (case onError hk of None \<Rightarrow> e
                        | Some h \<Rightarrow> (case hook_outcome h of None \<Rightarrow> e | Some e2 \<Rightarrow> e2)))"
    unfolding r by (simp only: catch_block_error)
  have c: "(ctx_get w = None \<longrightarrow> rollback_result d trx (trace w3) = None) \<and>
     (\<forall>h. onError hk = Some h \<longrightarrow> hook_outcome h = None)
       \<longrightarrow> r = Inl e \<and>
           trace w' = trace w3 @ (if ctx_get w = None then [TrxRollback trx] else []) @
             hook_events (onError hk)"
    unfolding a b by (auto split: option.splits)
  from a b c show ?thesis by blast
qed

text \<open>
  The original error does not always reach the caller: an \<open>onError\<close> hook that throws
  replaces it.
\<close>

theorem transaction_callback_failure_counterexample:
  "fst (transaction reliable_driver
          (Some (Throw (JsError ''Error'' ''original'') :: int callback))
          \<lparr>onError = Some (Hook 1 (Some (JsError ''Error'' ''onError failed''))), onSuccess = None\<rparr>
          (Database_constructor [])) = Inl (JsError ''Error'' ''onError failed'') \<and>
   fst (transaction reliable_driver
          (Some (Throw (JsError ''Error'' ''original'') :: int callback))
          \<lparr>onError = Some (Hook 1 (Some (JsError ''Error'' ''onError failed''))), onSuccess = None\<rparr>
          (Database_constructor [])) \<noteq> Inl (JsError ''Error'' ''original'')"
  by code_simp

theorem transaction_callback_failure_witness:
  "fst (transaction reliable_driver
          (Some (Throw (JsError ''Error'' ''original'') :: int callback))
          \<lparr>onError = Some (Hook 1 None), onSuccess = None\<rparr>
          (Database_constructor [])) = Inl (JsError ''Error'' ''original'') \<and>
   new_events (Database_constructor [])
     (snd (transaction reliable_driver
          (Some (Throw (JsError ''Error'' ''original'') :: int callback))
          \<lparr>onError = Some (Hook 1 None), onSuccess = None\<rparr>
          (Database_constructor []))) = [TrxBegin 0, TrxRollback 0, HookCalled (Hook 1 None)]"
proof -
  let ?e = "JsError ''Error'' ''original''"
  let ?hk = "\<lparr>onError = Some (Hook 1 None), onSuccess = None\<rparr>"
  let ?w = "Database_constructor []"
  let ?X = "transaction reliable_driver (Some (Throw ?e :: int callback)) ?hk ?w"
  let ?trx = "fst (open_or_join ?w)"
  let ?w1 = "snd (open_or_join ?w)"
  have oj: "open_or_join ?w = (?trx, ?w1)" by simp
  have cb: "run_callback reliable_driver (Throw ?e :: int callback) ?trx (?w1\<lparr>ambient := Some ?trx\<rparr>)
      = (Inl ?e, ?w1\<lparr>ambient := Some ?trx\<rparr>)" by simp
  have run: "?X = (fst ?X, snd ?X)" by simp
  have amb: "ctx_get ?w = None" by code_simp
  have trx: "?trx = 0" by code_simp
  have t1: "trace ?w1 = trace ?w @ [TrxBegin 0]" by code_simp
  have rb: "rollback_result reliable_driver 0 (trace ?w @ [TrxBegin 0]) = None"
    by (simp add: reliable_driver_def)
  show ?thesis
    using transaction_callback_failure [OF oj cb run] amb
    by (simp add: trx t1 rb hook_events_def new_events_def)
qed

text \<open>
  Claim C3, as far as it holds. When the callback returns, a commit is invoked right away,
  and once, if and only if this call opened the handle; unless that commit fails,
  \<open>onSuccess\<close> is called after it; and unless the commit or \<open>onSuccess\<close> fails, the call
  returns the callback's value. Whenever the call returns a value, it is the callback's.
\<close>

theorem transaction_callback_success:
  fixes cb :: "'a callback"
  assumes oj: "open_or_join w = (trx, w1)"
    and cb_returns: "run_callback d cb trx (w1\<lparr>ambient := Some trx\<rparr>) = (Inr v, w3)"
    and run: "transaction d (Some cb) hk w = (r, w')"
  shows "prefix (trace w3 @ (if ctx_get w = None then [TrxCommit trx] else [])) (trace w') \<and>
    filter (\<lambda>e. e = TrxCommit trx) (new_events w3 w') =
      (if ctx_get w = None then [TrxCommit trx] else []) \<and>
    ((ctx_get w = None \<longrightarrow> commit_result d trx (trace w3) = None) \<longrightarrow>
       prefix (trace w3 @ (if ctx_get w = None then [TrxCommit trx] else []) @
                 hook_events (onSuccess hk)) (trace w')) \<and>
    ((ctx_get w = None \<longrightarrow> commit_result d trx (trace w3) = None) \<and>
     (\<forall>h. onSuccess hk = Some h \<longrightarrow> hook_outcome h = None)
       \<longrightarrow> r = Inr (Value v) \<and>
           trace w' = trace w3 @ (if ctx_get w = None then [TrxCommit trx] else []) @
             hook_events (onSuccess hk)) \<and>
    (\<forall>x. r = Inr x \<longrightarrow> x = Value v)"
proof -
  let ?nn = "ctx_get w = None"
  have unf: "(r, w') = (map_sum id Value (fst (try_rest d ?nn trx hk v w3)),
        (snd (try_rest d ?nn trx hk v w3))\<lparr>ambient := ambient w1\<rparr>)"
    using transaction_callback_unfold [OF oj cb_returns, of hk] run by simp
  then have r: "r = map_sum id Value (fst (try_rest d ?nn trx hk v w3))"
    and w': "trace w' = trace (snd (try_rest d ?nn trx hk v w3))"
    by simp_all
  have a: "prefix (trace w3 @ (if ?nn then [TrxCommit trx] else [])) (trace w')"
    unfolding w' try_rest_result
    by (auto simp: throw_def catch_block_trace split: option.splits)
  have a': "filter (\<lambda>e. e = TrxCommit trx) (new_events w3 w') = (if ?nn then [TrxCommit trx] else [])"
    using try_rest_commits [of trx w3 d ?nn hk v] w' by (simp add: new_events_def)
  have b: "(?nn \<longrightarrow> commit_result d trx (trace w3) = None) \<longrightarrow>
       prefix (trace w3 @ (if ?nn then [TrxCommit trx] else []) @ hook_events (onSuccess hk)) (trace w')"
    unfolding w' try_rest_result
    by (auto simp: throw_def catch_block_trace hook_events_def split: option.splits)
  have c: "(?nn \<longrightarrow> commit_result d trx (trace w3) = None) \<and>
     (\<forall>h. onSuccess hk = Some h \<longrightarrow> hook_outcome h = None)
       \<longrightarrow> r = Inr (Value v) \<and>
           trace w' = trace w3 @ (if ?nn then [TrxCommit trx] else []) @ hook_events (onSuccess hk)"
    unfolding w' r try_rest_result
    by (auto simp: hook_events_def split: option.splits)
  have d: "\<forall>x. r = Inr x \<longrightarrow> x = Value v"
    unfolding r try_rest_result
    by (auto simp: throw_def split: option.splits)
  from a a' b c d show ?thesis by blast
qed

text \<open>
  The callback's value does not always reach the caller: when \<open>onSuccess\<close> throws, the
  call throws too.
\<close>

theorem transaction_callback_success_counterexample:
  "fst (run_callback reliable_driver (Return (7::int)) 0 (Database_constructor [])) = Inr 7 \<and>
   fst (transaction reliable_driver (Some (Return (7::int)))
        \<lparr>onError = None,
         onSuccess = Some (Hook 1 (Some (JsError ''Error'' ''onSuccess failed'')))\<rparr>
        (Database_constructor [])) = Inl (JsError ''Error'' ''onSuccess failed'')"
  by code_simp

theorem transaction_callback_success_witness:
  "fst (transaction reliable_driver (Some (Return (7::int)))
          \<lparr>onError = None, onSuccess = Some (Hook 2 None)\<rparr>
          (Database_constructor [])) = Inr (Value 7) \<and>
   new_events (Database_constructor [])
     (snd (transaction reliable_driver (Some (Return (7::int)))
          \<lparr>onError = None, onSuccess = Some (Hook 2 None)\<rparr>
          (Database_constructor []))) = [TrxBegin 0, TrxCommit 0, HookCalled (Hook 2 None)]"
proof -
  let ?hk = "\<lparr>onError = None, onSuccess = Some (Hook 2 None)\<rparr>"
  let ?w = "Database_constructor []"
  let ?X = "transaction reliable_driver (Some (Return (7::int))) ?hk ?w"
  let ?trx = "fst (open_or_join ?w)"
  let ?w1 = "snd (open_or_join ?w)"
  have oj: "open_or_join ?w = (?trx, ?w1)" by simp
  have cb: "run_callback reliable_driver (Return (7::int)) ?trx (?w1\<lparr>ambient := Some ?trx\<rparr>)
      = (Inr 7, ?w1\<lparr>ambient := Some ?trx\<rparr>)" by simp
  have run: "?X = (fst ?X, snd ?X)" by simp
  have amb: "ctx_get ?w = None" by code_simp
  have trx: "?trx = 0" by code_simp
  have t1: "trace ?w1 = trace ?w @ [TrxBegin 0]" by code_simp
  have cm: "commit_result reliable_driver 0 (trace ?w @ [TrxBegin 0]) = None"
    by (simp add: reliable_driver_def)
  show ?thesis
    using transaction_callback_success [OF oj cb run, THEN conjunct2, THEN conjunct2, THEN conjunct2,
        THEN conjunct1] amb
    by (simp add: trx t1 cm hook_events_def new_events_def)
qed

text \<open>
  Claim C5. Without a callback, \<open>transaction\<close> returns a manual handle. Nested, its \<open>get()\<close> is
  the ambient handle, nothing is opened, and \<open>commit()\<close> and \<open>rollback()\<close> do nothing. Otherwise
  \<open>get()\<close> is the handle just opened, and \<open>commit()\<close> and \<open>rollback()\<close> are that handle's own.
\<close>

theorem transaction_manual_handle:
  "\<exists>mh. transaction d (None :: 'a callback option) hk w = (Inr (ManualHandle mh), snd (open_or_join w)) \<and>
     (case ctx_get w of
        Some t \<Rightarrow>
          mh_get mh = t \<and> snd (open_or_join w) = w \<and>
          (\<forall>s. mh_commit d mh s = (None, s) \<and> mh_rollback d mh s = (None, s))
      | None \<Rightarrow>
          mh_get mh = next_handle w \<and>
          new_events w (snd (open_or_join w)) = [TrxBegin (next_handle w)] \<and>
          (\<forall>s. mh_commit d mh s =
                  (commit_result d (mh_get mh) (trace s), s\<lparr>trace := trace s @ [TrxCommit (mh_get mh)]\<rparr>) \<and>
               mh_rollback d mh s =
                  (rollback_result d (mh_get mh) (trace s), s\<lparr>trace := trace s @ [TrxRollback (mh_get mh)]\<rparr>)))"
  by (cases "ctx_get w")
     (simp_all add: transaction.simps open_or_join_def connection_transaction_def mh_get_def
        mh_commit_def mh_rollback_def trx_commit_def trx_rollback_def new_events_def)

theorem transaction_manual_handle_witness:
  "(\<exists>mh. fst (transaction reliable_driver (None :: int callback option) no_hooks
               ((Database_constructor [])\<lparr>ambient := Some 5\<rparr>)) = Inr (ManualHandle mh) \<and>
         mh_get mh = 5 \<and>
         mh_commit reliable_driver mh (Database_constructor []) = (None, Database_constructor [])) \<and>
   (\<exists>mh. fst (transaction reliable_driver (None :: int callback option) no_hooks
               (Database_constructor [])) = Inr (ManualHandle mh) \<and>
         mh_get mh = 0 \<and>
         trace (snd (mh_rollback reliable_driver mh (Database_constructor []))) =
           trace (Database_constructor []) @ [TrxRollback 0])"
proof -
  let ?w = "Database_constructor []"
  let ?w5 = "(Database_constructor [])\<lparr>ambient := Some 5\<rparr>"
  have amb: "ctx_get ?w = None" by code_simp
  have amb5: "ctx_get ?w5 = Some 5" by code_simp
  have nh: "next_handle ?w = 0" by code_simp
  have a: "\<exists>mh. fst (transaction reliable_driver (None :: int callback option) no_hooks ?w5)
              = Inr (ManualHandle mh) \<and> mh_get mh = 5 \<and>
            mh_commit reliable_driver mh ?w = (None, ?w)"
    using transaction_manual_handle [of reliable_driver no_hooks ?w5, where ?'a = int] amb5
    by auto
  have b: "\<exists>mh. fst (transaction reliable_driver (None :: int callback option) no_hooks ?w)
              = Inr (ManualHandle mh) \<and> mh_get mh = 0 \<and>
            trace (snd (mh_rollback reliable_driver mh ?w)) = trace ?w @ [TrxRollback 0]"
    using transaction_manual_handle [of reliable_driver no_hooks ?w, where ?'a = int] amb nh
    by auto
  from a b show ?thesis by blast
qed

section \<open>The claims about \<open>query\<close>, construction and \<open>destroy\<close>\<close>

text \<open>
  Claim C4, as far as it holds. For a uid that is not registered, \<open>query\<close> throws and never
  returns a repository; what it throws is a plain \<open>Error\<close> with the message
  \<open>Model <uid> not found\<close>. For a registered uid it returns the entity manager's repository
  for that uid.
\<close>

theorem query_result:
  "(\<not> metadata_has (metadata w) u \<longrightarrow>
      query w u = Inl (JsError ''Error'' (''Model '' @ u @ '' not found'')) \<and>
      (\<forall>r. query w u \<noteq> Inr r)) \<and>
   (metadata_has (metadata w) u \<longrightarrow> query w u = Inr (getRepository u))"
  by (simp add: query_def)

text \<open>
  The error is not of a class \<open>UnknownModelError\<close>.
\<close>

theorem query_result_counterexample:
  "\<not> metadata_has (metadata (Database_constructor [])) ''article'' \<and>
   query (Database_constructor []) ''article'' = Inl (JsError ''Error'' ''Model article not found'') \<and>
   err_class (JsError ''Error'' ''Model article not found'') \<noteq> ''UnknownModelError''"
  by code_simp

theorem query_result_witness:
  "\<not> metadata_has
        (metadata (Database_constructor [(''models'', JArray [JObject [(''uid'', JString ''article'')]])]))
        ''page'' \<and>
   query (Database_constructor [(''models'', JArray [JObject [(''uid'', JString ''article'')]])]) ''page''
     = Inl (JsError ''Error'' ''Model page not found'') \<and>
   metadata_has
        (metadata (Database_constructor [(''models'', JArray [JObject [(''uid'', JString ''article'')]])]))
        ''article'' \<and>
   query (Database_constructor [(''models'', JArray [JObject [(''uid'', JString ''article'')]])]) ''article''
     = Inr (Repository ''article'')"
proof -
  let ?w = "Database_constructor [(''models'', JArray [JObject [(''uid'', JString ''article'')]])]"
  have a: "\<not> metadata_has (metadata ?w) ''page''" by code_simp
  have b: "metadata_has (metadata ?w) ''article''" by code_simp
  show ?thesis
    using a b query_result [of ?w "''page''"] query_result [of ?w "''article''"]
    by (simp add: getRepository_def)
qed

text \<open>
  Claim C7. The constructor configures the dialect before it creates the connection, and
  initializes the dialect only after that. The dialect is selected once, from the
  configuration, and no method assigns it again.
\<close>

theorem Database_constructor_order:
  "trace (Database_constructor cfg) =
     [CreateMetadata, GetDialect, DialectConfigure, CreateConnection, DialectInitialize,
      CreateSchemaProvider, CreateMigrationsProvider, CreateLifecyclesProvider,
      CreateEntityManager] \<and>
   occurs_before DialectConfigure CreateConnection (trace (Database_constructor cfg)) \<and>
   occurs_before CreateConnection DialectInitialize (trace (Database_constructor cfg)) \<and>
   count_list (trace (Database_constructor cfg)) GetDialect = 1 \<and>
   dialect (Database_constructor cfg) = getDialect (js_spread default_config cfg) \<and>
   dialect (snd (transaction d (cbo :: 'a callback option) hk w)) = dialect w \<and>
   dialect (snd (destroy w)) = dialect w"
proof -
  have t: "trace (Database_constructor cfg) =
     [CreateMetadata, GetDialect, DialectConfigure, CreateConnection, DialectInitialize,
      CreateSchemaProvider, CreateMigrationsProvider, CreateLifecyclesProvider,
      CreateEntityManager]"
    by (simp add: Database_constructor_def log_event_def)
  have d1: "dialect (Database_constructor cfg) = getDialect (js_spread default_config cfg)"
    by (simp add: Database_constructor_def log_event_def)
  have d2: "dialect (snd (transaction d cbo hk w)) = dialect w"
    using same_instance_both(1) [of w d cbo hk] by (simp add: same_instance_def)
  have d3: "dialect (snd (destroy w)) = dialect w"
    by (simp add: destroy_def lifecycles_clear_def connection_destroy_def log_event_def)
  show ?thesis
    unfolding t using d1 d2 d3 by (simp add: occurs_before_def)
qed

theorem Database_constructor_order_witness:
  "occurs_before DialectConfigure CreateConnection
     (trace (Database_constructor [(''connection'', JObject [(''client'', JString ''sqlite'')])])) \<and>
   occurs_before CreateConnection DialectInitialize
     (trace (Database_constructor [(''connection'', JObject [(''client'', JString ''sqlite'')])])) \<and>
   dialect (snd (destroy
     (Database_constructor [(''connection'', JObject [(''client'', JString ''sqlite'')])]))) =
     JString ''sqlite''"
proof -
  let ?cfg = "[(''connection'', JObject [(''client'', JString ''sqlite'')])]"
  let ?w = "Database_constructor ?cfg"
  note t = Database_constructor_order [of ?cfg reliable_driver "None :: int callback option"
      no_hooks ?w]
  have d: "dialect ?w = JString ''sqlite''" by code_simp
  from t have a: "occurs_before DialectConfigure CreateConnection (trace ?w)" by blast
  from t have b: "occurs_before CreateConnection DialectInitialize (trace ?w)" by blast
  from t have "dialect (snd (destroy ?w)) = dialect ?w" by blast
  then have c: "dialect (snd (destroy ?w)) = JString ''sqlite''" using d by simp
  from a b c show ?thesis by blast
qed

text \<open>
  Claim C8. \<open>destroy\<close> first clears the lifecycle subscribers, with the pool as it was, then
  releases the connection pool, and yields no value.
\<close>

theorem destroy_order:
  "destroy w =
     ((), w\<lparr>subscribers := [], pool_open := False,
             trace := trace w @ [LifecyclesClear, ConnectionDestroy]\<rparr>) \<and>
   new_events w (snd (destroy w)) = [LifecyclesClear, ConnectionDestroy] \<and>
   destroy w = ((), connection_destroy (lifecycles_clear w)) \<and>
   subscribers (lifecycles_clear w) = [] \<and>
   pool_open (lifecycles_clear w) = pool_open w"
  by (simp add: destroy_def lifecycles_clear_def connection_destroy_def log_event_def new_events_def)

theorem destroy_order_witness:
  "new_events (Database_constructor []) (snd (destroy (Database_constructor []))) =
     [LifecyclesClear, ConnectionDestroy] \<and>
   pool_open (Database_constructor []) \<and>
   \<not> pool_open (snd (destroy (Database_constructor [])))"
proof -
  let ?w = "Database_constructor []"
  note t = destroy_order [of ?w]
  have p: "pool_open ?w" by code_simp
  from t have a: "new_events ?w (snd (destroy ?w)) = [LifecyclesClear, ConnectionDestroy]"
    by blast
  from t have "destroy ?w =
     ((), ?w\<lparr>subscribers := [], pool_open := False,
              trace := trace ?w @ [LifecyclesClear, ConnectionDestroy]\<rparr>)"
    by blast
  then have b: "\<not> pool_open (snd (destroy ?w))" by simp
  from a b p show ?thesis by blast
qed

text \<open>
  What the spread in the constructor leaves of the default \<open>settings\<close>: the caller's
  \<open>settings\<close> property, whenever there is one, and the default object otherwise.
\<close>

lemma js_lookup_set: "js_lookup (js_set obj k v) k' = (if k' = k then v else js_lookup obj k')"
  by (induction obj k v rule: js_set.induct) auto

lemma js_lookup_spread:
  "js_lookup (js_spread target src) k =
     (case map_of (rev src) k of None \<Rightarrow> js_lookup target k | Some v \<Rightarrow> v)"
  unfolding js_spread_def
proof (induction src arbitrary: target)
  case Nil
  then show ?case by simp
next
  case (Cons kv src)
  obtain k0 v0 where kv: "kv = (k0, v0)" by (cases kv)
  show ?case
    by (simp add: Cons kv js_lookup_set map_add_def split: option.splits)
qed

lemma config_settings:
  "js_lookup (config (Database_constructor cfg)) ''settings'' =
     (case map_of (rev cfg) ''settings'' of
        None \<Rightarrow> JObject [(''forceMigration'', JBool True)]
      | Some s \<Rightarrow> s)"
  by (simp add: Database_constructor_def log_event_def js_lookup_spread default_config_def
      split: option.splits)

text \<open>
  Claim C9. The default \<open>forceMigration: true\<close> reaches the effective configuration when the
  caller passes no \<open>settings\<close> at all. When the caller passes \<open>settings\<close> without a
  \<open>forceMigration\<close>, the spread replaces the default \<open>settings\<close> object as a whole and the
  effective \<open>settings.forceMigration\<close> is \<open>undefined\<close>.
\<close>

theorem forceMigration_default_lost:
  "js_get (js_lookup (config (Database_constructor
       [(''connection'', JObject [(''client'', JString ''sqlite'')]),
        (''settings'', JObject [(''runMigrations'', JBool False)])])) ''settings'') ''forceMigration''
     = JUndefined \<and>
   js_get (js_lookup (config (Database_constructor
       [(''connection'', JObject [(''client'', JString ''sqlite'')])])) ''settings'') ''forceMigration''
     = JBool True"
  by code_simp

end
